theory Spec2Isabelle
  imports Main
begin

text \<open>
  A model of the class \<^verbatim>\<open>HtmlTableParser\<close> of \<^verbatim>\<open>src/index.js\<close>: the key normalisation and
  the building of the header tree in \<^verbatim>\<open>_getHeaders\<close>, the row extraction of \<^verbatim>\<open>_getRows\<close>,
  and the mapping of a row to a record in \<^verbatim>\<open>_mapRowToHeaders\<close>. Objects that the source
  changes in place (the header cells, the row array, the record) are passed in and
  returned. The source has no statement that throws, so no function has an error result.
\<close>

section \<open>JavaScript strings\<close>

text \<open>
  A JavaScript string is a sequence of UTF-16 code units. The model uses \<^typ>\<open>string\<close>,
  whose characters are the code units U+0000 to U+00FF (Latin-1); header texts and cell
  texts outside that range are not covered. In that range the white space of the regular
  expression class \<^verbatim>\<open>\s\<close> and of \<^verbatim>\<open>String.prototype.trim\<close> is TAB, LF, VT, FF, CR,
  SPACE and NO-BREAK SPACE, and \<^verbatim>\<open>toLowerCase\<close> maps A-Z and U+00C0-U+00DE (without
  the multiplication sign U+00D7) to the code unit 32 above.
\<close>

definition js_is_space :: "char \<Rightarrow> bool" where
  "js_is_space c = (c \<in> set [CHR 0x09, CHR 0x0A, CHR 0x0B, CHR 0x0C, CHR 0x0D, CHR 0x20, CHR 0xA0])"

definition js_trim :: "string \<Rightarrow> string" where
  "js_trim s = rev (dropWhile js_is_space (rev (dropWhile js_is_space s)))"

definition lower_char :: "char \<Rightarrow> char" where
  "lower_char c =
     (let n = (of_char c :: nat)
      in if (65 \<le> n \<and> n \<le> 90) \<or> (192 \<le> n \<and> n \<le> 222 \<and> n \<noteq> 215)
         then char_of (n + 32) else c)"

definition js_toLowerCase :: "string \<Rightarrow> string" where
  "js_toLowerCase s = map lower_char s"

text \<open>
  \<^verbatim>\<open>name.replace(/\s\s+/g, ' ')\<close>: scanning from the left, every maximal run of two or
  more white-space characters becomes one SPACE; a single white-space character stays as
  it is.
\<close>

function replace_double_ws :: "string \<Rightarrow> string" where
  "replace_double_ws [] = []"
| "replace_double_ws [c] = [c]"
| "replace_double_ws (c # d # cs) =
     (if js_is_space c \<and> js_is_space d
      then CHR '' '' # replace_double_ws (dropWhile js_is_space cs)
      else c # replace_double_ws (d # cs))"
  by pat_completeness auto
termination
  by (relation "measure length") (auto simp: le_imp_less_Suc length_dropWhile_le less_Suc_eq_le le_SucI)

text \<open>
  The replacement text of \<^verbatim>\<open>String.prototype.replace\<close> is a template: \<^verbatim>\<open>$$\<close> stands for
  a dollar sign, \<^verbatim>\<open>$&\<close> for the matched text, \<^verbatim>\<open>$`\<close> for the text before the match and
  \<^verbatim>\<open>$'\<close> for the text after it. The pattern \<^verbatim>\<open>/\s/g\<close> has no capture group, so
  \<^verbatim>\<open>$1\<close>, \<^verbatim>\<open>$<name>\<close> and any other use of the dollar sign stay literal.
\<close>

fun get_substitution :: "string \<Rightarrow> string \<Rightarrow> string \<Rightarrow> string \<Rightarrow> string" where
  "get_substitution matched pre post [] = []"
| "get_substitution matched pre post [c] = [c]"
| "get_substitution matched pre post (c # d # cs) =
     (if c = CHR ''$'' then
        (if d = CHR ''$'' then CHR ''$'' # get_substitution matched pre post cs
         else if d = CHR ''&'' then matched @ get_substitution matched pre post cs
         else if d = CHR 0x60 then pre @ get_substitution matched pre post cs
         else if d = CHR 0x27 then post @ get_substitution matched pre post cs
         else c # get_substitution matched pre post (d # cs))
      else c # get_substitution matched pre post (d # cs))"

text \<open>
  \<^verbatim>\<open>name.replace(/\s/g, replacement)\<close>: every white-space character is replaced by the
  expanded template; \<open>pre\<close> is the part of the subject already scanned.
\<close>

fun replace_ws :: "string \<Rightarrow> string \<Rightarrow> string \<Rightarrow> string" where
  "replace_ws replacement pre [] = []"
| "replace_ws replacement pre (c # cs) =
     (if js_is_space c then get_substitution [c] pre cs replacement else [c])
       @ replace_ws replacement (pre @ [c]) cs"

section \<open>Parser options and the key normalisation of \<open>_getHeaders\<close>\<close>

text \<open>
  \<^verbatim>\<open>replace_whitespaces_keys\<close> is documented as boolean or string; the three other options
  are booleans. A string option is truthy when it is not empty.
\<close>

datatype bool_or_string = OBool bool | OStr string

record opts =
  trim_keys :: bool
  lowercase_keys :: bool
  remove_double_whitespaces :: bool
  replace_whitespaces_keys :: bool_or_string

definition default_opts :: opts where
  "default_opts = \<lparr>trim_keys = True, lowercase_keys = True,
     remove_double_whitespaces = True, replace_whitespaces_keys = OBool True\<rparr>"

text \<open>
  \<^verbatim>\<open>if (opts.replace_whitespaces_keys) name = name.replace(/\s/g,
  opts.replace_whitespaces_keys === true ? '_' : opts.replace_whitespaces_keys)\<close>:
  \<open>None\<close> when the option is falsy (\<^verbatim>\<open>false\<close> or the empty string), otherwise the
  replacement template.
\<close>

fun ws_replacement :: "bool_or_string \<Rightarrow> string option" where
  "ws_replacement (OBool b) = (if b then Some ''_'' else None)"
| "ws_replacement (OStr s) = (if s = [] then None else Some s)"

text \<open>Lines 44 to 48 of \<^verbatim>\<open>_getHeaders\<close>: the four steps in their fixed order.\<close>

definition normalize_key :: "opts \<Rightarrow> string \<Rightarrow> string" where
  "normalize_key os raw =
     (let n1 = (if trim_keys os then js_trim raw else raw);
          n2 = (if lowercase_keys os then js_toLowerCase n1 else n1);
          n3 = (if remove_double_whitespaces os then replace_double_ws n2 else n2)
      in case ws_replacement (replace_whitespaces_keys os) of
           None \<Rightarrow> n3
         | Some r \<Rightarrow> replace_ws r [] n3)"

section \<open>The document tree and its queries\<close>

text \<open>
  The parsed document: elements with a tag name, attributes and children, and text nodes.
  An element handle is the path (child indices from the root) that leads to the element.
\<close>

datatype node = Text string | Element string "(string \<times> string) list" "node list"

type_synonym path = "nat list"

fun node_at :: "node \<Rightarrow> path \<Rightarrow> node option" where
  "node_at n [] = Some n"
| "node_at (Text s) (i # p) = None"
| "node_at (Element t a cs) (i # p) = (if i < length cs then node_at (cs ! i) p else None)"

text \<open>All elements of a tree in document order (a parent before its children).\<close>

fun element_paths :: "node \<Rightarrow> path list"
  and child_paths :: "nat \<Rightarrow> node list \<Rightarrow> path list" where
  "element_paths (Text s) = []"
| "element_paths (Element t a cs) = [] # child_paths 0 cs"
| "child_paths i [] = []"
| "child_paths i (c # cs) = map ((#) i) (element_paths c) @ child_paths (Suc i) cs"

definition tag_at :: "node \<Rightarrow> path \<Rightarrow> string option" where
  "tag_at doc p = (case node_at doc p of Some (Element t a cs) \<Rightarrow> Some t | _ \<Rightarrow> None)"

definition is_below :: "path \<Rightarrow> path \<Rightarrow> bool" where
  "is_below c p = (length c < length p \<and> take (length c) p = c)"

text \<open>
  Modelled from the spec: the HTML query library (cheerio) is not part of the source.
  Section 6 gives \<^verbatim>\<open>queryAll(documentOrElement, cssSelector) -> ordered sequence of element
  handles\<close>. \<^verbatim>\<open>$(ctxs).find('a, b')\<close> is \<open>queryAll doc ctxs [''a'', ''b'']\<close>: the elements
  with one of the tag names that lie strictly below one of the context elements, each
  once, in document order.
\<close>

definition queryAll :: "node \<Rightarrow> path list \<Rightarrow> string list \<Rightarrow> path list" where
  "queryAll doc ctxs tags =
     filter (\<lambda>p. list_ex (\<lambda>c. is_below c p) ctxs \<and>
                 (case tag_at doc p of Some t \<Rightarrow> t \<in> set tags | None \<Rightarrow> False))
       (element_paths doc)"

text \<open>
  Modelled from the spec: \<^verbatim>\<open>getText(element) -> string\<close> (\<^verbatim>\<open>$(el).text()\<close>), the texts of
  all text nodes below the element, concatenated in document order; and
  \<^verbatim>\<open>getAttribute(element, name) -> string | absent\<close> (\<^verbatim>\<open>$(el).attr(name)\<close>).
\<close>

fun text_of :: "node \<Rightarrow> string" where
  "text_of (Text s) = s"
| "text_of (Element t a cs) = concat (map text_of cs)"

definition text_at :: "node \<Rightarrow> path \<Rightarrow> string" where
  "text_at doc p = (case node_at doc p of Some n \<Rightarrow> text_of n | None \<Rightarrow> [])"

definition attr_at :: "node \<Rightarrow> path \<Rightarrow> string \<Rightarrow> string option" where
  "attr_at doc p k = (case node_at doc p of Some (Element t a cs) \<Rightarrow> map_of a k | _ \<Rightarrow> None)"

section \<open>\<^verbatim>\<open>parseInt(colspan) || 0\<close>\<close>

text \<open>
  \<^verbatim>\<open>parseInt\<close> skips leading white space, reads an optional sign, takes radix 16 after
  \<^verbatim>\<open>0x\<close> or \<^verbatim>\<open>0X\<close> and radix 10 otherwise, and converts the longest prefix of digits;
  with no digit the result is NaN (\<open>None\<close>). Numbers are unbounded integers here, which
  is exact for magnitudes below \<open>2 ^ 53\<close>.
\<close>

definition digit_value :: "char \<Rightarrow> nat" where
  "digit_value c =
     (let n = (of_char c :: nat)
      in if 48 \<le> n \<and> n \<le> 57 then n - 48
         else if 97 \<le> n \<and> n \<le> 122 then n - 87
         else if 65 \<le> n \<and> n \<le> 90 then n - 55
         else 36)"

definition js_parseInt :: "string \<Rightarrow> int option" where
  "js_parseInt s =
     (let t = dropWhile js_is_space s;
          neg = (take 1 t = ''-'');
          t1 = (if take 1 t = ''-'' \<or> take 1 t = ''+'' then drop 1 t else t);
          hex = (take 2 t1 = ''0x'' \<or> take 2 t1 = ''0X'');
          radix = (if hex then 16 else 10);
          t2 = (if hex then drop 2 t1 else t1);
          ds = takeWhile (\<lambda>c. digit_value c < radix) t2;
          v = int (foldl (\<lambda>acc c. acc * radix + digit_value c) 0 ds)
      in if ds = [] then None else Some (if neg then - v else v))"

text \<open>An absent attribute is \<^verbatim>\<open>undefined\<close>, which \<^verbatim>\<open>parseInt\<close> turns into NaN; NaN and 0 are falsy.\<close>

definition colspan_or_0 :: "string option \<Rightarrow> int" where
  "colspan_or_0 a =
     (case a of None \<Rightarrow> 0
      | Some s \<Rightarrow> (case js_parseInt s of None \<Rightarrow> 0 | Some n \<Rightarrow> n))"

section \<open>Header cells and \<open>_getHeaders\<close>\<close>

text \<open>
  The object \<^verbatim>\<open>{name, remainingSubheaders, subheaders}\<close> pushed at lines 50 to 54. A cell
  that has been pushed into a parent's \<^verbatim>\<open>subheaders\<close> is not written again while the tree
  is built (only cells of the row above the current one are), so the tree is a value.
\<close>

datatype header = Header (name: string) (remainingSubheaders: int) (subheaders: "header list")

text \<open>Lines 39 and 40: the rows of the header section, or else the first row of the table.\<close>

definition header_rows :: "node \<Rightarrow> path list \<Rightarrow> path list" where
  "header_rows doc table =
     (let headerRows = queryAll doc (queryAll doc table [''thead'']) [''tr'']
      in if headerRows = [] then take 1 (queryAll doc table [''tr'']) else headerRows)"

text \<open>Lines 41 to 58: one list of fresh header cells for each header row.\<close>

definition th_cell :: "opts \<Rightarrow> node \<Rightarrow> path \<Rightarrow> header" where
  "th_cell os doc th =
     Header (normalize_key os (text_at doc th)) (colspan_or_0 (attr_at doc th ''colspan'')) []"

definition header_groups :: "opts \<Rightarrow> node \<Rightarrow> path list \<Rightarrow> header list list" where
  "header_groups os doc table =
     map (\<lambda>tr. map (th_cell os doc) (queryAll doc [tr] [''th''])) (header_rows doc table)"

text \<open>
  Lines 69 to 76, the loop over \<open>k\<close>: the first parent whose \<^verbatim>\<open>remainingSubheaders\<close> is
  truthy (not 0) takes the header; its counter goes down by
  \<^verbatim>\<open>header.subheaders.length || 1\<close>. \<open>None\<close> when the loop ends without a \<^verbatim>\<open>break\<close>.
\<close>

fun attach :: "header \<Rightarrow> header list \<Rightarrow> header list option" where
  "attach h [] = None"
| "attach h (p # ps) =
     (if remainingSubheaders p = 0 then map_option ((#) p) (attach h ps)
      else Some (Header (name p)
                   (remainingSubheaders p -
                      (if length (subheaders h) = 0 then 1 else int (length (subheaders h))))
                   (subheaders p @ [h]) # ps))"

text \<open>
  Lines 67 to 77, the loop over \<open>j\<close>: the headers of row \<open>i\<close> against the row above.
  \<^verbatim>\<open>delete headerGroup[j]\<close> leaves a hole (\<open>None\<close>) in the group. The result is the group
  with its holes and the parent group as changed.
\<close>

fun absorb_group :: "header list \<Rightarrow> header list \<Rightarrow> header option list \<times> header list" where
  "absorb_group [] parents = ([], parents)"
| "absorb_group (h # hs) parents =
     (case attach h parents of
        None \<Rightarrow> (let (hs', parents') = absorb_group hs parents in (Some h # hs', parents'))
      | Some parents1 \<Rightarrow>
          (let (hs', parents') = absorb_group hs parents1 in (None # hs', parents')))"

text \<open>
  Lines 61 to 78, the loop over \<open>i\<close> from the last row down to row 1. Row \<open>i\<close> is absorbed
  by row \<open>i - 1\<close> after it has itself absorbed the rows below it, and before row \<open>i - 1\<close>
  is offered to row \<open>i - 2\<close>; so the recursion first treats the rows below the first
  one. The result is the first row as changed (it has no holes) and the rows below it
  with their holes.
\<close>

fun absorb_all :: "header list list \<Rightarrow> header list \<times> header option list list" where
  "absorb_all [] = ([], [])"
| "absorb_all [g] = (g, [])"
| "absorb_all (g # g' # gs) =
     (let (below_first, below) = absorb_all (g' # gs);
          (holes, parents) = absorb_group below_first g
      in (parents, holes # below))"

text \<open>Lines 80 to 88: the cells that are left, row by row, without the holes.\<close>

definition combine :: "header list list \<Rightarrow> header list" where
  "combine groups =
     (let (first, below) = absorb_all groups
      in first @ concat (map (List.map_filter (\<lambda>h. h)) below))"

definition getHeaders :: "opts \<Rightarrow> node \<Rightarrow> path list \<Rightarrow> header list" where
  "getHeaders os doc table = combine (header_groups os doc table)"

section \<open>\<open>_getRows\<close>\<close>

text \<open>Line 95: the rows of the body sections, \<^verbatim>\<open>$(table).find('tbody').find('tr')\<close>.\<close>

definition body_rows :: "node \<Rightarrow> path list \<Rightarrow> path list" where
  "body_rows doc table = queryAll doc (queryAll doc table [''tbody'']) [''tr'']"

text \<open>Lines 96 to 99: the trimmed texts of the cells of one row, \<^verbatim>\<open>$(tr).find('td, th')\<close>.\<close>

definition row_values :: "node \<Rightarrow> path \<Rightarrow> string list" where
  "row_values doc tr = map (\<lambda>td. js_trim (text_at doc td)) (queryAll doc [tr] [''td'', ''th''])"

definition getRows :: "node \<Rightarrow> path list \<Rightarrow> string list list" where
  "getRows doc table = map (row_values doc) (body_rows doc table)"

section \<open>Records and \<open>_mapRowToHeaders\<close>\<close>

text \<open>
  The values that occur in a mapped row: \<^verbatim>\<open>undefined\<close>, a string, or a nested object.
  An object created by \<^verbatim>\<open>{}\<close> is the list of its own properties in the order of their
  creation; the properties that every object inherits from \<^verbatim>\<open>Object.prototype\<close> are
  not part of the model, so header names such as \<^verbatim>\<open>__proto__\<close> or \<^verbatim>\<open>constructor\<close> are
  not covered.
\<close>

datatype jsval = Undefined | Str string | Obj "(string \<times> jsval) list"

type_synonym jsobject = "(string \<times> jsval) list"

fun truthy :: "jsval \<Rightarrow> bool" where
  "truthy Undefined = False"
| "truthy (Str s) = (s \<noteq> [])"
| "truthy (Obj kvs) = True"

definition js_get :: "jsobject \<Rightarrow> string \<Rightarrow> jsval" where
  "js_get obj k = (case map_of obj k of None \<Rightarrow> Undefined | Some v \<Rightarrow> v)"

fun js_set :: "jsobject \<Rightarrow> string \<Rightarrow> jsval \<Rightarrow> jsobject" where
  "js_set [] k v = [(k, v)]"
| "js_set ((k', v') # kvs) k v =
     (if k' = k then (k, v) # kvs else (k', v') # js_set kvs k v)"

text \<open>\<^verbatim>\<open>row.shift()\<close>: the first value and the rest, \<^verbatim>\<open>undefined\<close> on an empty array.\<close>

definition shift :: "string list \<Rightarrow> jsval \<times> string list" where
  "shift row = (case row of [] \<Rightarrow> (Undefined, []) | v # vs \<Rightarrow> (Str v, vs))"

text \<open>The decimal digits of a number, as a template literal prints it.\<close>

fun show_nat :: "nat \<Rightarrow> string" where
  "show_nat n =
     (if n < 10 then [char_of (48 + n)]
      else show_nat (n div 10) @ [char_of (48 + n mod 10)])"

declare show_nat.simps [simp del]

lemma truthy_key_length:
  "truthy (js_get obj k) \<Longrightarrow> length k \<le> sum_list (map (\<lambda>kv. length (fst kv)) obj)"
proof -
  assume "truthy (js_get obj k)"
  then obtain v where "map_of obj k = Some v"
    by (cases "map_of obj k") (auto simp: js_get_def)
  then have "(k, v) \<in> set obj"
    by (rule map_of_SomeD)
  then have "length k \<in> set (map (\<lambda>kv. length (fst kv)) obj)"
    by force
  then show ?thesis
    by (rule member_le_sum_list) simp
qed

text \<open>
  Line 113, \<^verbatim>\<open>for (let i = 0; fullHeaders[header.name]; i++) header.name += `_${i++}`\<close>:
  while the name is bound to a truthy value, \<^verbatim>\<open>_i\<close> is appended to the name, and \<open>i\<close>
  goes up twice in each round (once in the template, once in the loop header). The
  result is the new \<^verbatim>\<open>header.name\<close>.
\<close>

function rename_loop :: "jsobject \<Rightarrow> string \<Rightarrow> nat \<Rightarrow> string" where
  "rename_loop fullHeaders nm i =
     (if truthy (js_get fullHeaders nm)
      then rename_loop fullHeaders (nm @ ''_'' @ show_nat i) (i + 2)
      else nm)"
  by pat_completeness auto
termination
  by (relation "measure (\<lambda>(obj, nm, i). Suc (sum_list (map (\<lambda>kv. length (fst kv)) obj)) - length nm)")
     (auto dest: truthy_key_length)

declare rename_loop.simps [simp del]

text \<open>
  Lines 110 to 120, \<open>mapHeaders\<close>. The function changes three things: the object
  \<open>fullHeaders\<close>, the array \<open>row\<close> (by \<^verbatim>\<open>shift\<close>) and the names of the headers (line 113),
  so it returns all three. The nested object is filled by the recursive call and bound
  under the header's name; the recursive call sees only that nested object.
\<close>

fun mapHeaders :: "header list \<Rightarrow> jsobject \<Rightarrow> string list \<Rightarrow> jsobject \<times> string list \<times> header list" where
  "mapHeaders [] fullHeaders row = (fullHeaders, row, [])"
| "mapHeaders (Header nm r subs # hs) fullHeaders row =
     (if length subs > 0 then
        (let nm' = rename_loop fullHeaders nm 0;
             (sub, row1, subs') = mapHeaders subs [] row;
             (fullHeaders', row', hs') = mapHeaders hs (js_set fullHeaders nm' (Obj sub)) row1
         in (fullHeaders', row', Header nm' r subs' # hs'))
      else
        (let (v, row1) = shift row;
             (fullHeaders', row', hs') = mapHeaders hs (js_set fullHeaders nm v) row1
         in (fullHeaders', row', Header nm r subs # hs')))"

text \<open>Lines 123 to 125: the values that are left go under \<^verbatim>\<open>unlabelled_0\<close>, \<^verbatim>\<open>unlabelled_1\<close>, ...\<close>

definition unlabelled_key :: "nat \<Rightarrow> string" where
  "unlabelled_key i = ''unlabelled_'' @ show_nat i"

fun add_unlabelled :: "nat \<Rightarrow> string list \<Rightarrow> jsobject \<Rightarrow> jsobject" where
  "add_unlabelled i [] mappedRow = mappedRow"
| "add_unlabelled i (v # vs) mappedRow =
     add_unlabelled (Suc i) vs (js_set mappedRow (unlabelled_key i) (Str v))"

text \<open>Lines 108 to 128; the result is the record and the headers with their names as changed.\<close>

definition mapRowToHeaders :: "header list \<Rightarrow> string list \<Rightarrow> jsobject \<times> header list" where
  "mapRowToHeaders combinedHeaders row =
     (let (mappedRow, rest, headers') = mapHeaders combinedHeaders [] row
      in (add_unlabelled 0 rest mappedRow, headers'))"

text \<open>Lines 131 to 138: the rows one after the other, against the same header objects.\<close>

fun mapRowsToHeaders :: "header list \<Rightarrow> string list list \<Rightarrow> jsobject list \<times> header list" where
  "mapRowsToHeaders headers [] = ([], headers)"
| "mapRowsToHeaders headers (row # rows) =
     (let (mappedRow, headers1) = mapRowToHeaders headers row;
          (mappedRows, headers') = mapRowsToHeaders headers1 rows
      in (mappedRow # mappedRows, headers'))"

text \<open>Lines 141 to 143.\<close>

definition parseTable :: "opts \<Rightarrow> node \<Rightarrow> path list \<Rightarrow> jsobject list" where
  "parseTable os doc table =
     fst (mapRowsToHeaders (getHeaders os doc table) (getRows doc table))"

section \<open>Notions used to state the properties\<close>

text \<open>
  A leaf header is a header without children (the test of line 112); \<open>leaf_count\<close> is
  the number of leaf headers of a forest, at any depth.
\<close>

fun leaves :: "header \<Rightarrow> nat" where
  "leaves (Header nm r subs) = (if subs = [] then 1 else sum_list (map leaves subs))"

definition leaf_count :: "header list \<Rightarrow> nat" where
  "leaf_count hs = sum_list (map leaves hs)"


text \<open>The same tree without the names of the headers that have children.\<close>

fun forget_names :: "header \<Rightarrow> header" where
  "forget_names (Header nm r subs) =
     Header (if subs = [] then nm else []) r (map forget_names subs)"


text \<open>Every cell of the tree has a remaining span of at least 0.\<close>

fun spans_nonneg :: "header \<Rightarrow> bool" where
  "spans_nonneg (Header nm r subs) = (0 \<le> r \<and> (\<forall>s\<in>set subs. spans_nonneg s))"


text \<open>A table without a header section: one body section with a row of a header cell and a row of a data cell.\<close>

definition table_without_thead :: node where
  "table_without_thead =
     Element ''table'' []
       [Element ''tbody'' []
          [Element ''tr'' [] [Element ''th'' [] [Text '' A '']],
           Element ''tr'' [] [Element ''td'' [] [Text '' 1 '']]]]"

text \<open>A table without a header section and without header cells.\<close>

definition table_without_th :: node where
  "table_without_th =
     Element ''table'' []
       [Element ''tbody'' []
          [Element ''tr'' [] [Element ''td'' [] [Text ''1'']],
           Element ''tr'' [] [Element ''td'' [] [Text ''2'']]]]"




text \<open>A string without white space at either end.\<close>

definition trimmed :: "string \<Rightarrow> bool" where
  "trimmed s = (s = [] \<or> (\<not> js_is_space (hd s) \<and> \<not> js_is_space (last s)))"

text \<open>A string without two white-space characters in a row.\<close>

fun no_double_ws :: "string \<Rightarrow> bool" where
  "no_double_ws [] = True"
| "no_double_ws [c] = True"
| "no_double_ws (c # d # cs) = (\<not> (js_is_space c \<and> js_is_space d) \<and> no_double_ws (d # cs))"

text \<open>The first three steps of the normalisation.\<close>

definition first_steps :: "opts \<Rightarrow> string \<Rightarrow> string" where
  "first_steps os raw =
     (let n1 = (if trim_keys os then js_trim raw else raw);
          n2 = (if lowercase_keys os then js_toLowerCase n1 else n1)
      in if remove_double_whitespaces os then replace_double_ws n2 else n2)"

section \<open>Facts about the document queries\<close>

lemma is_below_trans:
  assumes "is_below a b" and "is_below b c"
  shows "is_below a c"
proof -
  from assms have ab: "length a < length b" and a: "take (length a) b = a"
    and bc: "length b < length c" and b: "take (length b) c = b"
    unfolding is_below_def by blast+
  have "take (length a) c = take (length a) (take (length b) c)"
    using ab by (simp add: min_def)
  also have "\<dots> = a"
    unfolding b by (rule a)
  finally show ?thesis
    using ab bc unfolding is_below_def by simp
qed

lemma queryAll_no_context [simp]: "queryAll doc [] tags = []"
  by (simp add: queryAll_def)

lemma filter_stronger:
  "(\<And>x. Q x \<Longrightarrow> P x) \<Longrightarrow> filter Q xs = filter Q (filter P xs)"
  by (induction xs) auto

lemma body_rows_are_table_rows:
  "body_rows doc table
     = filter (\<lambda>p. list_ex (\<lambda>b. is_below b p) (queryAll doc table [''tbody'']))
         (queryAll doc table [''tr''])"
proof -
  let ?bodies = "queryAll doc table [''tbody'']"
  let ?tr = "\<lambda>p. case tag_at doc p of Some t \<Rightarrow> t \<in> set [''tr''] | None \<Rightarrow> False"
  have below: "list_ex (\<lambda>c. is_below c p) table" if "list_ex (\<lambda>b. is_below b p) ?bodies" for p
  proof -
    from that obtain b where b: "b \<in> set ?bodies" and bp: "is_below b p"
      by (auto simp: list_ex_iff)
    from b obtain c where "c \<in> set table" and "is_below c b"
      by (auto simp: queryAll_def list_ex_iff)
    with bp show ?thesis
      by (auto simp: list_ex_iff intro: is_below_trans)
  qed
  have "body_rows doc table
      = filter (\<lambda>p. list_ex (\<lambda>b. is_below b p) ?bodies \<and> ?tr p) (element_paths doc)"
    by (simp add: body_rows_def queryAll_def)
  also have "\<dots> = filter (\<lambda>p. list_ex (\<lambda>b. is_below b p) ?bodies \<and> ?tr p)
      (filter (\<lambda>p. list_ex (\<lambda>c. is_below c p) table \<and> ?tr p) (element_paths doc))"
    by (rule filter_stronger) (simp add: below)
  also have "\<dots> = filter (\<lambda>p. list_ex (\<lambda>b. is_below b p) ?bodies) (queryAll doc table [''tr''])"
    unfolding queryAll_def [of doc table] by (simp add: conj_commute cong: conj_cong)
  finally show ?thesis .
qed

lemmas dom_simps = queryAll_def is_below_def tag_at_def text_at_def attr_at_def
  header_rows_def body_rows_def row_values_def getRows_def

lemma table_without_thead_rows:
  "queryAll table_without_thead [[]] [''thead''] = []"
  "header_rows table_without_thead [[]] = [[0, 0]]"
  "body_rows table_without_thead [[]] = [[0, 0], [0, 1]]"
  "getRows table_without_thead [[]] = [[''A''], [''1'']]"
  "list_ex (\<lambda>b. is_below b [0, 0]) (queryAll table_without_thead [[]] [''tbody''])"
  by (simp_all add: dom_simps table_without_thead_def js_trim_def js_is_space_def)

lemma normalize_key_A: "normalize_key default_opts '' A '' = ''a''"
  by code_simp

lemma table_without_thead_headers:
  "getHeaders default_opts table_without_thead [[]] = [Header ''a'' 0 []]"
  by (simp add: dom_simps table_without_thead_def getHeaders_def combine_def header_groups_def
      th_cell_def colspan_or_0_def normalize_key_A)







lemma is_below_Nil [simp]: "is_below [] p \<longleftrightarrow> p \<noteq> []"
  by (simp add: is_below_def)

lemma is_below_Cons [simp]:
  "is_below (i # q) [] \<longleftrightarrow> False"
  "is_below (i # q) (j # p) \<longleftrightarrow> i = j \<and> is_below q p"
  by (auto simp: is_below_def)









section \<open>Facts about the key normalisation\<close>

lemma js_is_space_code:
  "js_is_space c \<longleftrightarrow> (of_char c :: nat) \<in> {9, 10, 11, 12, 13, 32, 160}"
proof -
  have "c = d \<longleftrightarrow> (of_char c :: nat) = of_char d" for d
    by simp
  then show ?thesis
    unfolding js_is_space_def by (simp del: of_char_eq_iff)
qed

lemma of_char_lower_char:
  "(of_char (lower_char c) :: nat) =
     (if (65 \<le> (of_char c :: nat) \<and> (of_char c :: nat) \<le> 90)
         \<or> (192 \<le> (of_char c :: nat) \<and> (of_char c :: nat) \<le> 222 \<and> (of_char c :: nat) \<noteq> 215)
      then of_char c + 32 else of_char c)"
  by (simp add: lower_char_def Let_def)

lemma js_is_space_lower_char [simp]: "js_is_space (lower_char c) = js_is_space c"
  unfolding js_is_space_code of_char_lower_char by auto

lemma lower_char_idem [simp]: "lower_char (lower_char c) = lower_char c"
proof -
  have "(of_char (lower_char (lower_char c)) :: nat) = of_char (lower_char c)"
    unfolding of_char_lower_char [of "lower_char c"] unfolding of_char_lower_char [of c]
    by auto
  then show ?thesis by simp
qed

lemma lower_char_space [simp]: "lower_char CHR '' '' = CHR '' ''"
  by (simp add: lower_char_def)

lemma js_toLowerCase_idem: "js_toLowerCase (js_toLowerCase s) = js_toLowerCase s"
  by (simp add: js_toLowerCase_def)


lemma last_dropWhile: "dropWhile P xs \<noteq> [] \<Longrightarrow> last (dropWhile P xs) = last xs"
  by (induction xs) (auto split: if_splits)

lemma trimmed_js_trim: "trimmed (js_trim s)"
proof -
  let ?t = "dropWhile js_is_space s"
  let ?u = "dropWhile js_is_space (rev ?t)"
  show ?thesis
  proof (cases "?u = []")
    case True
    then show ?thesis by (simp add: trimmed_def js_trim_def)
  next
    case False
    then have t: "?t \<noteq> []"
      by (metis dropWhile.simps(1) rev.simps(1))
    from False have "\<not> js_is_space (hd ?u)"
      by (rule hd_dropWhile)
    moreover from False have "last ?u = last (rev ?t)"
      by (rule last_dropWhile)
    with t have "last ?u = hd ?t"
      by (simp add: last_rev)
    moreover from t have "\<not> js_is_space (hd ?t)"
      by (rule hd_dropWhile)
    ultimately show ?thesis
      using False by (simp add: trimmed_def js_trim_def hd_rev last_rev)
  qed
qed

lemma js_trim_trimmed: "trimmed s \<Longrightarrow> js_trim s = s"
proof (cases "s = []")
  case True
  then show ?thesis by (simp add: js_trim_def)
next
  case False
  assume "trimmed s"
  with False have h: "\<not> js_is_space (hd s)" and l: "\<not> js_is_space (last s)"
    by (simp_all add: trimmed_def)
  from h False have 1: "dropWhile js_is_space s = s"
    by (simp add: dropWhile_eq_self_iff)
  from l False have "\<not> js_is_space (hd (rev s))"
    by (simp add: hd_rev)
  then have "dropWhile js_is_space (rev s) = rev s"
    by (simp add: dropWhile_eq_self_iff)
  with 1 show ?thesis
    by (simp add: js_trim_def)
qed

lemma js_trim_idem: "js_trim (js_trim s) = js_trim s"
  by (rule js_trim_trimmed) (rule trimmed_js_trim)

lemma js_trim_lower: "js_trim (js_toLowerCase s) = js_toLowerCase (js_trim s)"
proof -
  have "js_is_space \<circ> lower_char = js_is_space"
    by (simp add: fun_eq_iff)
  then show ?thesis
    by (simp add: js_trim_def js_toLowerCase_def dropWhile_map rev_map)
qed

lemma trimmed_lower: "trimmed s \<Longrightarrow> trimmed (js_toLowerCase s)"
  by (cases "s = []") (simp_all add: trimmed_def js_toLowerCase_def hd_map last_map)

text \<open>Facts about \<open>replace_double_ws\<close>.\<close>

lemma rdw_not_space [simp]:
  "\<not> js_is_space c \<Longrightarrow> replace_double_ws (c # cs) = c # replace_double_ws cs"
  by (cases cs) simp_all

lemma rdw_Nil_iff [simp]: "replace_double_ws s = [] \<longleftrightarrow> s = []"
  by (cases s rule: replace_double_ws.cases) simp_all

lemma rdw_hd_space: "js_is_space (hd (replace_double_ws (d # cs))) \<Longrightarrow> js_is_space d"
  by (cases cs) (auto split: if_splits)

lemma rdw_no_double: "no_double_ws s \<Longrightarrow> replace_double_ws s = s"
  by (induction s rule: no_double_ws.induct) auto

lemma no_double_ws_Cons:
  "no_double_ws (c # s) \<longleftrightarrow> (s = [] \<or> (\<not> (js_is_space c \<and> js_is_space (hd s)) \<and> no_double_ws s))"
  by (cases s) simp_all

lemma js_is_space_space [simp]: "js_is_space CHR '' ''"
  by (simp add: js_is_space_def)

lemma no_double_rdw: "no_double_ws (replace_double_ws s)"
proof (induction s rule: replace_double_ws.induct)
  case 1
  show ?case by simp
next
  case (2 c)
  show ?case by simp
next
  case (3 c d cs)
  show ?case
  proof (cases "js_is_space c \<and> js_is_space d")
    case True
    let ?t = "dropWhile js_is_space cs"
    from True "3.IH"(1) have nd: "no_double_ws (replace_double_ws ?t)"
      by simp
    have "\<not> js_is_space (hd (replace_double_ws ?t))" if "?t \<noteq> []"
    proof -
      from that have "\<not> js_is_space (hd ?t)"
        by (rule hd_dropWhile)
      with that show ?thesis
        by (cases ?t) simp_all
    qed
    then have "no_double_ws (CHR '' '' # replace_double_ws ?t)"
      using nd by (cases "?t = []") (simp_all add: no_double_ws_Cons del: dropWhile_eq_Nil_conv)
    moreover from True have "replace_double_ws (c # d # cs) = CHR '' '' # replace_double_ws ?t"
      by simp
    ultimately show ?thesis
      by (simp del: replace_double_ws.simps)
  next
    case False
    with "3.IH"(2) have nd: "no_double_ws (replace_double_ws (d # cs))"
      by simp
    have "\<not> (js_is_space c \<and> js_is_space (hd (replace_double_ws (d # cs))))"
      using False rdw_hd_space [of d cs] by blast
    moreover from False have "replace_double_ws (c # d # cs) = c # replace_double_ws (d # cs)"
      by auto
    ultimately show ?thesis
      using nd by (simp add: no_double_ws_Cons del: replace_double_ws.simps)
  qed
qed

lemma rdw_idem: "replace_double_ws (replace_double_ws s) = replace_double_ws s"
  by (rule rdw_no_double) (rule no_double_rdw)

lemma dropWhile_space_lower:
  "dropWhile js_is_space (map lower_char cs) = map lower_char (dropWhile js_is_space cs)"
  by (induction cs) simp_all

lemma rdw_lower:
  "replace_double_ws (js_toLowerCase s) = js_toLowerCase (replace_double_ws s)"
  unfolding js_toLowerCase_def
  by (induction s rule: replace_double_ws.induct) (simp_all add: dropWhile_space_lower)

lemma rdw_last:
  "s \<noteq> [] \<Longrightarrow> \<not> js_is_space (last s) \<Longrightarrow> last (replace_double_ws s) = last s"
proof (induction s rule: replace_double_ws.induct)
  case 1
  then show ?case by simp
next
  case (2 c)
  then show ?case by simp
next
  case (3 c d cs)
  show ?case
  proof (cases "js_is_space c \<and> js_is_space d")
    case True
    let ?t = "dropWhile js_is_space cs"
    have t: "?t \<noteq> []"
    proof
      assume "?t = []"
      then have all: "\<forall>x\<in>set cs. js_is_space x"
        by (simp add: dropWhile_eq_Nil_conv)
      from "3.prems"(2) True all show False
        by (cases "cs = []") simp_all
    qed
    then have lt: "last ?t = last cs"
      by (rule last_dropWhile)
    from t have "cs \<noteq> []" by auto
    with "3.prems"(2) have "\<not> js_is_space (last cs)" by simp
    with "3.IH"(1) True t lt have "last (replace_double_ws ?t) = last cs"
      by simp
    moreover from t have "replace_double_ws ?t \<noteq> []"
      by (simp del: dropWhile_eq_Nil_conv)
    ultimately have "last (CHR '' '' # replace_double_ws ?t) = last (c # d # cs)"
      using \<open>cs \<noteq> []\<close> by (simp del: dropWhile_eq_Nil_conv rdw_Nil_iff)
    moreover from True have "replace_double_ws (c # d # cs) = CHR '' '' # replace_double_ws ?t"
      by simp
    ultimately show ?thesis
      by (simp del: replace_double_ws.simps)
  next
    case False
    with "3.IH"(2) "3.prems" have "last (replace_double_ws (d # cs)) = last (d # cs)"
      by simp
    moreover from False have "replace_double_ws (c # d # cs) = c # replace_double_ws (d # cs)"
      by auto
    ultimately show ?thesis
      by (simp del: replace_double_ws.simps)
  qed
qed

lemma trimmed_rdw: "trimmed s \<Longrightarrow> trimmed (replace_double_ws s)"
proof (cases s)
  case Nil
  then show ?thesis by (simp add: trimmed_def)
next
  case (Cons c cs)
  assume "trimmed s"
  with Cons have c: "\<not> js_is_space c" and l: "\<not> js_is_space (last s)"
    by (simp_all add: trimmed_def)
  from Cons l have "last (replace_double_ws s) = last s"
    by (intro rdw_last) simp_all
  with c l Cons show ?thesis
    by (simp add: trimmed_def)
qed


text \<open>Facts about \<open>replace_ws\<close> with a replacement that holds no dollar sign.\<close>

lemma get_substitution_plain:
  "CHR ''$'' \<notin> set r \<Longrightarrow> get_substitution matched pre post r = r"
  by (induction matched pre post r rule: get_substitution.induct) auto

lemma replace_ws_plain:
  "CHR ''$'' \<notin> set r \<Longrightarrow>
   replace_ws r pre s = concat (map (\<lambda>c. if js_is_space c then r else [c]) s)"
  by (induction s arbitrary: pre) (simp_all add: get_substitution_plain)

lemma replace_ws_no_space:
  assumes "CHR ''$'' \<notin> set r" and "\<forall>c\<in>set r. \<not> js_is_space c"
  shows "\<forall>c\<in>set (replace_ws r pre s). \<not> js_is_space c"
  using assms by (auto simp: replace_ws_plain)

lemma replace_ws_lower:
  assumes "CHR ''$'' \<notin> set r" and "js_toLowerCase r = r"
  shows "js_toLowerCase (replace_ws r pre s) = replace_ws r pre (js_toLowerCase s)"
proof -
  have "map lower_char (concat (map (\<lambda>c. if js_is_space c then r else [c]) s))
      = concat (map (\<lambda>c. if js_is_space c then r else [c]) (map lower_char s))"
    using assms(2) by (induction s) (simp_all add: js_toLowerCase_def)
  with assms(1) show ?thesis
    by (simp add: replace_ws_plain js_toLowerCase_def)
qed

text \<open>A string without white space is left as it is by the three white-space steps.\<close>

lemma no_space_trim: "\<forall>c\<in>set s. \<not> js_is_space c \<Longrightarrow> js_trim s = s"
  by (rule js_trim_trimmed) (cases "s = []", simp_all add: trimmed_def)

lemma no_space_rdw: "\<forall>c\<in>set s. \<not> js_is_space c \<Longrightarrow> replace_double_ws s = s"
  by (induction s) simp_all

lemma no_space_replace_ws: "\<forall>c\<in>set s. \<not> js_is_space c \<Longrightarrow> replace_ws r pre s = s"
  by (induction s arbitrary: pre) simp_all

lemma normalize_key_first_steps:
  "normalize_key os raw =
     (case ws_replacement (replace_whitespaces_keys os) of
        None \<Rightarrow> first_steps os raw
      | Some r \<Rightarrow> replace_ws r [] (first_steps os raw))"
  by (simp add: normalize_key_def first_steps_def Let_def split: option.split)

lemma first_steps_idem: "first_steps os (first_steps os s) = first_steps os s"
proof -
  have 1: "js_trim (replace_double_ws (js_trim t)) = replace_double_ws (js_trim t)" for t
    by (intro js_trim_trimmed trimmed_rdw trimmed_js_trim)
  have 2: "js_trim (replace_double_ws (js_toLowerCase (js_trim t)))
      = replace_double_ws (js_toLowerCase (js_trim t))" for t
    by (intro js_trim_trimmed trimmed_rdw trimmed_lower trimmed_js_trim)
  show ?thesis
    by (simp add: first_steps_def Let_def js_trim_idem js_toLowerCase_idem rdw_idem
        js_trim_lower rdw_lower 1 2)
qed

lemma first_steps_lower:
  "lowercase_keys os \<Longrightarrow> js_toLowerCase (first_steps os s) = first_steps os s"
  by (simp add: first_steps_def Let_def js_toLowerCase_idem rdw_lower [symmetric])

lemma first_steps_no_space:
  assumes "\<forall>c\<in>set s. \<not> js_is_space c"
  shows "first_steps os s = (if lowercase_keys os then js_toLowerCase s else s)"
proof -
  from assms have "\<forall>c\<in>set (js_toLowerCase s). \<not> js_is_space c"
    by (simp add: js_toLowerCase_def)
  with assms show ?thesis
    by (simp add: first_steps_def Let_def no_space_trim no_space_rdw)
qed

section \<open>Facts about records and the keys \<open>unlabelled_i\<close>\<close>

lemma map_of_js_set: "map_of (js_set obj k v) = (map_of obj)(k \<mapsto> v)"
  by (induction obj) (auto simp: fun_eq_iff)

lemma js_set_fresh: "k \<notin> fst ` set obj \<Longrightarrow> js_set obj k v = obj @ [(k, v)]"
  by (induction obj) auto

lemma show_nat_small: "n < 10 \<Longrightarrow> show_nat n = [char_of (48 + n)]"
  by (subst show_nat.simps) simp

lemma show_nat_large:
  "\<not> n < 10 \<Longrightarrow> show_nat n = show_nat (n div 10) @ [char_of (48 + n mod 10)]"
  by (subst show_nat.simps) simp

lemma show_nat_not_Nil: "show_nat n \<noteq> []"
  by (cases "n < 10") (simp_all add: show_nat_small show_nat_large)

lemma show_nat_inj: "show_nat m = show_nat n \<Longrightarrow> m = n"
proof (induction m arbitrary: n rule: show_nat.induct)
  case (1 m)
  show ?case
  proof (cases "m < 10")
    case True
    note m = show_nat_small [OF True]
    show ?thesis
    proof (cases "n < 10")
      case True
      from "1.prems" have "char_of (48 + m) = (char_of (48 + n) :: char)"
        unfolding m show_nat_small [OF True] by simp
      then have "(48 + m) mod 256 = (48 + n) mod 256"
        by simp
      with True \<open>m < 10\<close> show ?thesis by simp
    next
      case False
      from "1.prems" have "length (show_nat (n div 10)) = 0"
        unfolding m show_nat_large [OF False] by (metis length_append_singleton length_Cons list.size(3) nat.inject)
      with show_nat_not_Nil [of "n div 10"] show ?thesis
        by simp
    qed
  next
    case False
    note m = show_nat_large [OF False]
    show ?thesis
    proof (cases "n < 10")
      case True
      from "1.prems" have "length (show_nat (m div 10)) = 0"
        unfolding m show_nat_small [OF True] by (metis length_append_singleton length_Cons list.size(3) nat.inject)
      with show_nat_not_Nil [of "m div 10"] show ?thesis
        by simp
    next
      case n: False
      from "1.prems" have eq: "show_nat (m div 10) = show_nat (n div 10)"
        and d: "char_of (48 + m mod 10) = (char_of (48 + n mod 10) :: char)"
        unfolding m show_nat_large [OF n] by simp_all
      from "1.IH" [OF False eq] have "m div 10 = n div 10" .
      moreover from d have "(48 + m mod 10) mod 256 = (48 + n mod 10) mod 256"
        by simp
      moreover have "48 + m mod 10 < 256" and "48 + n mod 10 < 256"
        by (simp_all add: less_imp_add_positive trans_less_add2 add.commute)
      ultimately have "m div 10 = n div 10" and "m mod 10 = n mod 10"
        by simp_all
      then show ?thesis
        by (metis div_mult_mod_eq)
    qed
  qed
qed

lemma unlabelled_key_inj: "unlabelled_key i = unlabelled_key j \<longleftrightarrow> i = j"
  by (auto simp: unlabelled_key_def dest: show_nat_inj)

lemma add_unlabelled_other:
  "(\<And>j. j < length vs \<Longrightarrow> k \<noteq> unlabelled_key (i + j)) \<Longrightarrow>
   map_of (add_unlabelled i vs obj) k = map_of obj k"
proof (induction vs arbitrary: i obj)
  case Nil
  then show ?case by simp
next
  case (Cons v vs)
  have "k \<noteq> unlabelled_key (Suc i + j)" if "j < length vs" for j
    using Cons.prems [of "Suc j"] that by simp
  then have "map_of (add_unlabelled (Suc i) vs (js_set obj (unlabelled_key i) (Str v))) k
        = map_of (js_set obj (unlabelled_key i) (Str v)) k"
    by (rule Cons.IH)
  moreover have "k \<noteq> unlabelled_key i"
    using Cons.prems [of 0] by simp
  ultimately show ?case
    by (simp add: map_of_js_set)
qed

lemma add_unlabelled_lookup:
  "j < length vs \<Longrightarrow>
   map_of (add_unlabelled i vs obj) (unlabelled_key (i + j)) = Some (Str (vs ! j))"
proof (induction vs arbitrary: i obj j)
  case Nil
  then show ?case by simp
next
  case (Cons v vs)
  show ?case
  proof (cases j)
    case 0
    have "map_of (add_unlabelled (Suc i) vs (js_set obj (unlabelled_key i) (Str v)))
            (unlabelled_key i)
          = map_of (js_set obj (unlabelled_key i) (Str v)) (unlabelled_key i)"
      by (rule add_unlabelled_other) (simp add: unlabelled_key_inj)
    with 0 show ?thesis
      by (simp add: map_of_js_set)
  next
    case (Suc j')
    with Cons.prems have "j' < length vs" by simp
    from Cons.IH [OF this, of "Suc i"] Suc show ?thesis
      by simp
  qed
qed

lemma add_unlabelled_fresh:
  "(\<And>j. i \<le> j \<Longrightarrow> unlabelled_key j \<notin> fst ` set obj) \<Longrightarrow>
   add_unlabelled i vs obj
     = obj @ map (\<lambda>(j, v). (unlabelled_key j, Str v)) (enumerate i vs)"
proof (induction vs arbitrary: i obj)
  case Nil
  then show ?case by simp
next
  case (Cons v vs)
  let ?k = "unlabelled_key i"
  have fresh: "?k \<notin> fst ` set obj"
    using Cons.prems [of i] by simp
  then have set: "js_set obj ?k (Str v) = obj @ [(?k, Str v)]"
    by (rule js_set_fresh)
  have "unlabelled_key j \<notin> fst ` set (js_set obj ?k (Str v))" if "Suc i \<le> j" for j
    using Cons.prems [of j] that by (auto simp: set unlabelled_key_inj)
  then have "add_unlabelled (Suc i) vs (js_set obj ?k (Str v))
      = js_set obj ?k (Str v) @ map (\<lambda>(j, v). (unlabelled_key j, Str v)) (enumerate (Suc i) vs)"
    by (rule Cons.IH)
  then show ?case
    by (simp add: set)
qed

section \<open>Facts about the attachment step\<close>





lemma spans_nonneg_span: "spans_nonneg h \<Longrightarrow> 0 \<le> remainingSubheaders h"
  by (cases h) simp

lemma spans_nonneg_subs: "spans_nonneg h \<Longrightarrow> s \<in> set (subheaders h) \<Longrightarrow> spans_nonneg s"
  by (cases h) simp

lemma spans_nonneg_childless:
  "subheaders h = [] \<Longrightarrow> 0 \<le> remainingSubheaders h \<Longrightarrow> spans_nonneg h"
  by (cases h) simp

text \<open>One attachment of a header with at most one child keeps the spans at 0 or above.\<close>

lemma attach_nonneg:
  assumes "attach h ps = Some ps'" and "spans_nonneg h" and "length (subheaders h) \<le> 1"
    and "\<forall>p\<in>set ps. spans_nonneg p"
  shows "\<forall>p\<in>set ps'. spans_nonneg p"
  using assms
proof (induction ps arbitrary: ps')
  case Nil
  then show ?case by simp
next
  case (Cons p ps)
  show ?case
  proof (cases "remainingSubheaders p = 0")
    case True
    with Cons.prems(1) obtain qs where qs: "attach h ps = Some qs" and ps': "ps' = p # qs"
      by auto
    from Cons.IH [OF qs Cons.prems(2,3)] Cons.prems(4) have "\<forall>p\<in>set qs. spans_nonneg p"
      by simp
    with Cons.prems(4) ps' show ?thesis by simp
  next
    case False
    with Cons.prems(1) have ps': "ps' = Header (name p)
        (remainingSubheaders p - (if length (subheaders h) = 0 then 1 else int (length (subheaders h))))
        (subheaders p @ [h]) # ps"
      by simp
    from Cons.prems(3) have "(if length (subheaders h) = 0 then 1 else int (length (subheaders h))) = 1"
      by (cases "subheaders h") auto
    moreover from Cons.prems(4) have "spans_nonneg p"
      by simp
    then have "0 \<le> remainingSubheaders p" and "\<forall>s\<in>set (subheaders p). spans_nonneg s"
      by (auto dest: spans_nonneg_span spans_nonneg_subs)
    ultimately show ?thesis
      using Cons.prems(2,4) False ps' by simp
  qed
qed

lemma attach_small:
  assumes "attach h ps = Some ps'"
    and "\<forall>p\<in>set ps. remainingSubheaders p + int (length (subheaders p)) \<le> 1"
  shows "\<forall>p\<in>set ps'. remainingSubheaders p + int (length (subheaders p)) \<le> 1"
  using assms
proof (induction ps arbitrary: ps')
  case Nil
  then show ?case by simp
next
  case (Cons p ps)
  show ?case
  proof (cases "remainingSubheaders p = 0")
    case True
    with Cons.prems(1) obtain qs where qs: "attach h ps = Some qs" and ps': "ps' = p # qs"
      by auto
    from Cons.IH [OF qs] Cons.prems(2) ps' show ?thesis
      by simp
  next
    case False
    with Cons.prems(1) have ps': "ps' = Header (name p)
        (remainingSubheaders p - (if length (subheaders h) = 0 then 1 else int (length (subheaders h))))
        (subheaders p @ [h]) # ps"
      by simp
    have "1 \<le> (if length (subheaders h) = 0 then 1 else int (length (subheaders h)))"
      by (cases "subheaders h") auto
    with Cons.prems(2) ps' show ?thesis
      by auto
  qed
qed

lemma absorb_group_Cons:
  "absorb_group (h # hs) ps =
     (case attach h ps of
        None \<Rightarrow> (Some h # fst (absorb_group hs ps), snd (absorb_group hs ps))
      | Some ps1 \<Rightarrow> (None # fst (absorb_group hs ps1), snd (absorb_group hs ps1)))"
  by (simp add: split_beta split: option.split)

lemma absorb_group_nonneg:
  assumes "\<forall>h\<in>set hs. spans_nonneg h \<and> length (subheaders h) \<le> 1"
    and "\<forall>p\<in>set ps. spans_nonneg p"
  shows "(\<forall>p\<in>set (snd (absorb_group hs ps)). spans_nonneg p)
       \<and> (\<forall>h. Some h \<in> set (fst (absorb_group hs ps)) \<longrightarrow> h \<in> set hs)"
  using assms
proof (induction hs arbitrary: ps)
  case Nil
  then show ?case by simp
next
  case (Cons h hs)
  from Cons.prems(1) have hs: "\<forall>h\<in>set hs. spans_nonneg h \<and> length (subheaders h) \<le> 1"
    and h: "spans_nonneg h" "length (subheaders h) \<le> 1"
    by simp_all
  show ?case
  proof (cases "attach h ps")
    case None
    from Cons.IH [OF hs Cons.prems(2)]
    have "\<forall>p\<in>set (snd (absorb_group hs ps)). spans_nonneg p"
      and "\<forall>h. Some h \<in> set (fst (absorb_group hs ps)) \<longrightarrow> h \<in> set hs"
      by blast+
    then show ?thesis
      unfolding absorb_group_Cons None by simp
  next
    case (Some ps1)
    from attach_nonneg [OF Some h Cons.prems(2)] have "\<forall>p\<in>set ps1. spans_nonneg p" .
    from Cons.IH [OF hs this]
    have "\<forall>p\<in>set (snd (absorb_group hs ps1)). spans_nonneg p"
      and "\<forall>h. Some h \<in> set (fst (absorb_group hs ps1)) \<longrightarrow> h \<in> set hs"
      by blast+
    then show ?thesis
      unfolding absorb_group_Cons Some by simp
  qed
qed

lemma absorb_group_small:
  assumes "\<forall>p\<in>set ps. remainingSubheaders p + int (length (subheaders p)) \<le> 1"
  shows "\<forall>p\<in>set (snd (absorb_group hs ps)). remainingSubheaders p + int (length (subheaders p)) \<le> 1"
  using assms
proof (induction hs arbitrary: ps)
  case Nil
  then show ?case by simp
next
  case (Cons h hs)
  show ?case
  proof (cases "attach h ps")
    case None
    from Cons.IH [OF Cons.prems] show ?thesis
      unfolding absorb_group_Cons None by simp
  next
    case (Some ps1)
    from attach_small [OF Some Cons.prems]
    have "\<forall>p\<in>set ps1. remainingSubheaders p + int (length (subheaders p)) \<le> 1" .
    from Cons.IH [OF this] show ?thesis
      unfolding absorb_group_Cons Some by simp
  qed
qed

text \<open>Rows of which all but the last have declared spans 0 or 1.\<close>

lemma absorb_all_small:
  assumes "\<forall>g\<in>set groups. \<forall>h\<in>set g. subheaders h = [] \<and> 0 \<le> remainingSubheaders h"
    and "\<forall>g\<in>set (butlast groups). \<forall>h\<in>set g. remainingSubheaders h \<le> 1"
  shows "(\<forall>h\<in>set (fst (absorb_all groups)). spans_nonneg h \<and> length (subheaders h) \<le> 1)
       \<and> (\<forall>g\<in>set (snd (absorb_all groups)). \<forall>h. Some h \<in> set g \<longrightarrow> spans_nonneg h)"
  using assms
proof (induction groups rule: absorb_all.induct)
  case 1
  show ?case by simp
next
  case (2 g)
  then show ?case
    by (simp add: spans_nonneg_childless)
next
  case (3 g g' gs)
  obtain below_first below where below: "absorb_all (g' # gs) = (below_first, below)"
    by force
  from "3.prems" have "\<forall>g\<in>set (g' # gs). \<forall>h\<in>set g. subheaders h = [] \<and> 0 \<le> remainingSubheaders h"
    and "\<forall>g\<in>set (butlast (g' # gs)). \<forall>h\<in>set g. remainingSubheaders h \<le> 1"
    by auto
  from "3.IH" [OF this] below
  have bf: "\<forall>h\<in>set below_first. spans_nonneg h \<and> length (subheaders h) \<le> 1"
    and bl: "\<forall>g\<in>set below. \<forall>h. Some h \<in> set g \<longrightarrow> spans_nonneg h"
    by simp_all
  from "3.prems" have g: "\<forall>p\<in>set g. spans_nonneg p"
    and small: "\<forall>p\<in>set g. remainingSubheaders p + int (length (subheaders p)) \<le> 1"
    by (simp_all add: spans_nonneg_childless)
  from absorb_group_nonneg [OF bf g]
  have 1: "\<forall>p\<in>set (snd (absorb_group below_first g)). spans_nonneg p"
    and 2: "\<forall>h. Some h \<in> set (fst (absorb_group below_first g)) \<longrightarrow> h \<in> set below_first"
    by simp_all
  from absorb_group_small [OF small]
  have 3: "\<forall>p\<in>set (snd (absorb_group below_first g)). remainingSubheaders p + int (length (subheaders p)) \<le> 1" .
  have 4: "length (subheaders p) \<le> 1" if "p \<in> set (snd (absorb_group below_first g))" for p
  proof -
    from 1 that have "0 \<le> remainingSubheaders p"
      by (auto dest: spans_nonneg_span)
    moreover from 3 that have "remainingSubheaders p + int (length (subheaders p)) \<le> 1"
      by blast
    ultimately show ?thesis by linarith
  qed
  have eq: "absorb_all (g # g' # gs)
      = (snd (absorb_group below_first g), fst (absorb_group below_first g) # below)"
    by (simp add: below split_beta)
  have "\<forall>h\<in>set (snd (absorb_group below_first g)). spans_nonneg h \<and> length (subheaders h) \<le> 1"
    using 1 4 by blast
  moreover have "\<forall>g\<in>set (fst (absorb_group below_first g) # below). \<forall>h. Some h \<in> set g \<longrightarrow> spans_nonneg h"
    using 2 bf bl by auto
  ultimately show ?case
    unfolding eq fst_conv snd_conv by blast
qed

lemma set_map_filter_id: "h \<in> set (List.map_filter (\<lambda>h. h) xs) \<longleftrightarrow> Some h \<in> set xs"
  by (induction xs) (auto simp: List.map_filter_simps split: option.splits)

lemma th_cell_span:
  "remainingSubheaders (th_cell os doc th) = colspan_or_0 (attr_at doc th ''colspan'')
   \<and> subheaders (th_cell os doc th) = []"
  by (simp add: th_cell_def)

lemma colspan_or_0_examples:
  "colspan_or_0 None = 0" "colspan_or_0 (Some ''abc'') = 0" "colspan_or_0 (Some ''3'') = 3"
  "colspan_or_0 (Some ''-2'') = - 2"
  by code_simp+

section \<open>Facts about \<open>mapHeaders\<close>\<close>

lemma shift_rest: "snd (shift row) = drop 1 row"
  by (cases row) (simp_all add: shift_def)

lemma leaf_count_simps [simp]:
  "leaf_count [] = 0"
  "leaf_count (h # hs) = leaves h + leaf_count hs"
  "leaf_count (hs @ hs') = leaf_count hs + leaf_count hs'"
  by (simp_all add: leaf_count_def)

lemma mapHeaders_leaf:
  "mapHeaders (Header nm r [] # hs) fh row =
     (case mapHeaders hs (js_set fh nm (fst (shift row))) (snd (shift row)) of
        (fh', row', hs') \<Rightarrow> (fh', row', Header nm r [] # hs'))"
  by (simp add: split_beta)

lemma mapHeaders_node:
  "subs \<noteq> [] \<Longrightarrow>
   mapHeaders (Header nm r subs # hs) fh row =
     (case mapHeaders subs [] row of
        (sub, row1, subs') \<Rightarrow>
          (case mapHeaders hs (js_set fh (rename_loop fh nm 0) (Obj sub)) row1 of
             (fh', row', hs') \<Rightarrow> (fh', row', Header (rename_loop fh nm 0) r subs' # hs')))"
  by (simp add: split_beta Let_def)

lemma mapHeaders_rest: "fst (snd (mapHeaders hs fh row)) = drop (leaf_count hs) row"
proof (induction hs fh row rule: mapHeaders.induct)
  case (1 fh row)
  show ?case by simp
next
  case (2 nm r subs hs fh row)
  show ?case
  proof (cases "subs = []")
    case True
    from "2.IH"(3) [OF _ prod.collapse refl] True
    have "fst (snd (mapHeaders hs (js_set fh nm (fst (shift row))) (snd (shift row))))
          = drop (leaf_count hs) (snd (shift row))"
      by simp
    with True show ?thesis
      by (simp add: mapHeaders_leaf shift_rest split_beta del: mapHeaders.simps)
  next
    case False
    obtain sub row1 subs' where sub: "mapHeaders subs [] row = (sub, row1, subs')"
      by (cases "mapHeaders subs [] row") auto
    from "2.IH"(1) [OF _ refl] False sub have row1: "row1 = drop (leaf_count subs) row"
      by simp
    from "2.IH"(2) [OF _ refl sub [symmetric] refl] False
    have "fst (snd (mapHeaders hs (js_set fh (rename_loop fh nm 0) (Obj sub)) row1))
          = drop (leaf_count hs) row1"
      by simp
    with False sub row1 show ?thesis
      by (simp add: mapHeaders_node split_beta leaf_count_def add.commute del: mapHeaders.simps)
  qed
qed



lemma mapHeaders_shape:
  "map forget_names (snd (snd (mapHeaders hs fh row))) = map forget_names hs"
proof (induction hs fh row rule: mapHeaders.induct)
  case (1 fh row)
  show ?case by simp
next
  case (2 nm r subs hs fh row)
  show ?case
  proof (cases "subs = []")
    case True
    from "2.IH"(3) [OF _ prod.collapse refl] True
    show ?thesis
      by (simp add: mapHeaders_leaf split_beta del: mapHeaders.simps)
  next
    case False
    obtain sub row1 subs' where sub: "mapHeaders subs [] row = (sub, row1, subs')"
      by (cases "mapHeaders subs [] row") auto
    from "2.IH"(1) [OF _ refl] False sub
    have 1: "map forget_names subs' = map forget_names subs"
      by simp
    then have "length subs' = length subs"
      by (rule map_eq_imp_length_eq)
    with False have 2: "subs' \<noteq> []" by auto
    from "2.IH"(2) [OF _ refl sub [symmetric] refl] False sub 1 2
    show ?thesis
      by (simp add: mapHeaders_node split_beta del: mapHeaders.simps)
  qed
qed

lemma rename_loop_falsy: "\<not> truthy (js_get fh (rename_loop fh nm i))"
  by (induction fh nm i rule: rename_loop.induct) (subst rename_loop.simps, simp)

lemma rename_loop_stable: "rename_loop fh (rename_loop fh nm i) j = rename_loop fh nm i"
  by (subst rename_loop.simps) (simp add: rename_loop_falsy)

lemma mapHeaders_again:
  "mapHeaders (snd (snd (mapHeaders hs fh row))) fh row = mapHeaders hs fh row"
proof (induction hs fh row rule: mapHeaders.induct)
  case (1 fh row)
  show ?case by simp
next
  case (2 nm r subs hs fh row)
  show ?case
  proof (cases "subs = []")
    case True
    from "2.IH"(3) [OF _ prod.collapse refl] True
    show ?thesis
      by (simp add: mapHeaders_leaf split_beta del: mapHeaders.simps)
  next
    case False
    obtain sub row1 subs' where sub: "mapHeaders subs [] row = (sub, row1, subs')"
      by (cases "mapHeaders subs [] row") auto
    from "2.IH"(1) [OF _ refl] False sub
    have 1: "mapHeaders subs' [] row = (sub, row1, subs')"
      by simp
    from mapHeaders_shape [of subs "[]" row] sub
    have "length subs' = length subs"
      by (auto dest: map_eq_imp_length_eq)
    with False have 2: "subs' \<noteq> []" by auto
    from "2.IH"(2) [OF _ refl sub [symmetric] refl] False sub 1 2
    show ?thesis
      by (simp add: mapHeaders_node split_beta rename_loop_stable del: mapHeaders.simps)
  qed
qed

lemma mapRowToHeaders_record:
  "fst (mapRowToHeaders hs row)
     = add_unlabelled 0 (drop (leaf_count hs) row) (fst (mapHeaders hs [] row))"
  using mapHeaders_rest [of hs "[]" row]
  by (simp add: mapRowToHeaders_def split_beta)

lemma unlabelled_key_0_1:
  "unlabelled_key 0 = ''unlabelled_0''" "unlabelled_key 1 = ''unlabelled_1''"
  by code_simp+



lemma mapRowToHeaders_headers:
  "snd (mapRowToHeaders hs row) = snd (snd (mapHeaders hs [] row))"
  by (simp add: mapRowToHeaders_def split_beta)

lemma combine_single: "combine [g] = g"
  by (simp add: combine_def)

section \<open>Duplicate header names (claim C1)\<close>

text \<open>
  Claim C1: duplicate sibling header names are disambiguated by the suffixes \<^verbatim>\<open>_0\<close>,
  \<^verbatim>\<open>_1\<close>, \<^verbatim>\<open>_2\<close>, ..., for leaf headers as for headers with children; the header row
  \<^verbatim>\<open>[{"x",0},{"x",0}]\<close> against the data row \<^verbatim>\<open>["1","2"]\<close> gives \<^verbatim>\<open>{x: "1", x_0: "2"}\<close>.
  The code does not do this. The leaf branch (line 117) assigns without the loop of
  line 113, so the second \<open>x\<close> overwrites the first and the value \<open>1\<close> is lost. The branch
  for headers with children counts \<open>i\<close> up twice per round and keeps the earlier
  suffixes, so three siblings \<open>x\<close> become \<open>x\<close>, \<open>x_0\<close>, \<open>x_0_2\<close>.
\<close>

theorem C1_duplicate_leaf_overwrites:
  "fst (mapRowToHeaders (combine [[Header ''x'' 0 [], Header ''x'' 0 []]]) [''1'', ''2''])
     = [(''x'', Str ''2'')]
   \<and> map fst (fst (mapRowToHeaders
         [Header ''x'' 0 [Header ''a'' 0 []], Header ''x'' 0 [Header ''b'' 0 []],
          Header ''x'' 0 [Header ''c'' 0 []]] [''1'', ''2'', ''3'']))
     = [''x'', ''x_0'', ''x_0_2'']"
  by code_simp

section \<open>Which parent takes a header (claim C2)\<close>




section \<open>The sign of the remaining span (claim C3)\<close>

text \<open>
  Claim C3: for every sequence of header rows, the remaining span of every HeaderCell
  is at least 0 at every point during and after the building of the header tree; it
  starts at the declared column span, 0 if absent. Line 72 subtracts
  \<^verbatim>\<open>header.subheaders.length || 1\<close> whatever is left, so a cell with a declared span of 1
  that takes a header with two children ends at \<open>-1\<close>. (A declared span can also be
  negative from the start: \<^verbatim>\<open>parseInt("-2") || 0\<close> is \<open>-2\<close>, see \<open>colspan_or_0_examples\<close>.)
\<close>

theorem C3_span_below_zero:
  "combine [[Header ''a'' 1 []], [Header ''b'' 2 []], [Header ''c'' 0 [], Header ''d'' 0 []]]
     = [Header ''a'' (- 1) [Header ''b'' 0 [Header ''c'' 0 [], Header ''d'' 0 []]]]
   \<and> \<not> list_all spans_nonneg
         (combine [[Header ''a'' 1 []], [Header ''b'' 2 []], [Header ''c'' 0 [], Header ''d'' 0 []]])"
  by (simp add: combine_def List.map_filter_def)

text \<open>
  Claim C3 as amended: the remaining span of a HeaderCell starts at
  \<^verbatim>\<open>parseInt(colspan) || 0\<close> (\<open>th_cell_span\<close>); if no declared span is negative and every
  row strictly between the first and the last header row declares spans of at most 1
  (as is the case with one or two header rows), then after the building of the header
  tree the remaining span of every HeaderCell, root or descendant, is at least 0.
\<close>

theorem C3_spans_stay_nonneg:
  assumes "\<forall>g\<in>set groups. \<forall>h\<in>set g. subheaders h = [] \<and> 0 \<le> remainingSubheaders h"
    and "\<forall>g\<in>set (butlast (tl groups)). \<forall>h\<in>set g. remainingSubheaders h \<le> 1"
  shows "\<forall>h\<in>set (combine groups). spans_nonneg h"
proof (cases groups)
  case Nil
  then show ?thesis
    by (simp add: combine_def)
next
  case (Cons g rest)
  from assms Cons have rest: "\<forall>g\<in>set rest. \<forall>h\<in>set g. subheaders h = [] \<and> 0 \<le> remainingSubheaders h"
    and mid: "\<forall>g\<in>set (butlast rest). \<forall>h\<in>set g. remainingSubheaders h \<le> 1"
    and g: "\<forall>p\<in>set g. spans_nonneg p"
    by (simp_all add: spans_nonneg_childless)
  show ?thesis
  proof (cases rest)
    case Nil
    with Cons g show ?thesis
      by (simp add: combine_single)
  next
    case rest_Cons: (Cons g' gs)
    from absorb_all_small [OF rest mid]
    have bf: "\<forall>h\<in>set (fst (absorb_all rest)). spans_nonneg h \<and> length (subheaders h) \<le> 1"
      and bl: "\<forall>g\<in>set (snd (absorb_all rest)). \<forall>h. Some h \<in> set g \<longrightarrow> spans_nonneg h"
      by blast+
    let ?ag = "absorb_group (fst (absorb_all rest)) g"
    from absorb_group_nonneg [OF bf g]
    have 1: "\<forall>p\<in>set (snd ?ag). spans_nonneg p"
      and 2: "\<forall>h. Some h \<in> set (fst ?ag) \<longrightarrow> h \<in> set (fst (absorb_all rest))"
      by blast+
    have eq: "combine groups = snd ?ag
        @ List.map_filter (\<lambda>h. h) (fst ?ag)
        @ concat (map (List.map_filter (\<lambda>h. h)) (snd (absorb_all rest)))"
      by (simp add: combine_def Cons rest_Cons split_beta)
    show ?thesis
    proof
      fix h
      assume "h \<in> set (combine groups)"
      then consider "h \<in> set (snd ?ag)" | "Some h \<in> set (fst ?ag)"
        | g0 where "g0 \<in> set (snd (absorb_all rest))" "Some h \<in> set g0"
        unfolding eq by (auto simp: set_map_filter_id)
      then show "spans_nonneg h"
      proof cases
        case 1
        with \<open>\<forall>p\<in>set (snd ?ag). spans_nonneg p\<close> show ?thesis by blast
      next
        case 2
        with \<open>\<forall>h. Some h \<in> set (fst ?ag) \<longrightarrow> h \<in> set (fst (absorb_all rest))\<close> bf
        show ?thesis by blast
      next
        case 3
        with bl show ?thesis by blast
      qed
    qed
  qed
qed

theorem C3_spans_stay_nonneg_witness:
  "list_all spans_nonneg
     (combine [[Header ''a'' 2 [], Header ''z'' 0 []], [Header ''b'' 1 [], Header ''e'' 0 []],
               [Header ''c'' 3 []]])"
proof -
  let ?groups = "[[Header ''a'' 2 [], Header ''z'' 0 []], [Header ''b'' 1 [], Header ''e'' 0 []],
               [Header ''c'' 3 []]]"
  have "\<forall>g\<in>set ?groups. \<forall>h\<in>set g. subheaders h = [] \<and> 0 \<le> remainingSubheaders h"
    and "\<forall>g\<in>set (butlast (tl ?groups)). \<forall>h\<in>set g. remainingSubheaders h \<le> 1"
    by simp_all
  then have "\<forall>h\<in>set (combine ?groups). spans_nonneg h"
    by (rule C3_spans_stay_nonneg)
  then show ?thesis
    by (simp only: list_all_iff)
qed

section \<open>The rows of a table without a header section (claim C4)\<close>

text \<open>
  Claim C4: for a table without a header section only the first row of the table is
  the header row, and the data rows are exactly the rows after it; the header row is
  not a data row as well. \<open>_getRows\<close> takes every row of a body section and knows nothing
  of the choice of line 40. In \<open>table_without_thead\<close> the first row lies in the body
  section, as every row of a parsed HTML table without sections does; it is the header
  row and the first data row, and the first record maps the header to its own text.
\<close>

theorem C4_header_row_is_data_row:
  "queryAll table_without_thead [[]] [''thead''] = []
   \<and> header_rows table_without_thead [[]] = [[0, 0]]
   \<and> body_rows table_without_thead [[]] = [[0, 0], [0, 1]]
   \<and> getRows table_without_thead [[]] = [[''A''], [''1'']]
   \<and> parseTable default_opts table_without_thead [[]]
       = [[(''a'', Str ''A'')], [(''a'', Str ''1'')]]"
  by (simp add: table_without_thead_rows table_without_thead_headers parseTable_def
      mapRowToHeaders_def shift_def)

text \<open>
  Claim C4 as amended: for a table without a header section the header row is the
  first row of the table, if there is one; the data rows are the rows of the table that
  lie in a body section, in document order; and a header row that lies in a body
  section is the first of the data rows.
\<close>

theorem C4_rows_without_header_section:
  assumes "queryAll doc table [''thead''] = []"
  shows "header_rows doc table = take 1 (queryAll doc table [''tr''])
     \<and> body_rows doc table
         = filter (\<lambda>p. list_ex (\<lambda>b. is_below b p) (queryAll doc table [''tbody'']))
             (queryAll doc table [''tr''])
     \<and> (\<forall>p. header_rows doc table = [p]
            \<and> list_ex (\<lambda>b. is_below b p) (queryAll doc table [''tbody''])
          \<longrightarrow> (\<exists>rest. getRows doc table = row_values doc p # rest))"
proof (intro conjI allI impI)
  show hr: "header_rows doc table = take 1 (queryAll doc table [''tr''])"
    using assms by (simp add: header_rows_def)
  show br: "body_rows doc table
         = filter (\<lambda>p. list_ex (\<lambda>b. is_below b p) (queryAll doc table [''tbody'']))
             (queryAll doc table [''tr''])"
    by (rule body_rows_are_table_rows)
  fix p
  assume p: "header_rows doc table = [p]
            \<and> list_ex (\<lambda>b. is_below b p) (queryAll doc table [''tbody''])"
  with hr obtain others where "queryAll doc table [''tr''] = p # others"
    by (cases "queryAll doc table [''tr'']") simp_all
  with p br have "body_rows doc table
      = p # filter (\<lambda>p. list_ex (\<lambda>b. is_below b p) (queryAll doc table [''tbody''])) others"
    by simp
  then show "\<exists>rest. getRows doc table = row_values doc p # rest"
    by (simp add: getRows_def)
qed

theorem C4_rows_without_header_section_witness:
  "take 1 (getRows table_without_thead [[]]) = [row_values table_without_thead [0, 0]]"
proof -
  have "queryAll table_without_thead [[]] [''thead''] = []"
    by (rule table_without_thead_rows)
  from C4_rows_without_header_section [OF this]
  have "\<forall>p. header_rows table_without_thead [[]] = [p]
            \<and> list_ex (\<lambda>b. is_below b p) (queryAll table_without_thead [[]] [''tbody''])
          \<longrightarrow> (\<exists>rest. getRows table_without_thead [[]] = row_values table_without_thead p # rest)"
    by blast
  moreover have "header_rows table_without_thead [[]] = [[0, 0]]
     \<and> list_ex (\<lambda>b. is_below b [0, 0]) (queryAll table_without_thead [[]] [''tbody''])"
    by (simp only: table_without_thead_rows simp_thms)
  ultimately obtain rest
    where "getRows table_without_thead [[]] = row_values table_without_thead [0, 0] # rest"
    by blast
  then show ?thesis
    by simp
qed

text \<open>
  When the first row has no header cell, the header tree is empty and the first row is
  a data row like the others; its values are kept under \<^verbatim>\<open>unlabelled_0\<close>, ...
\<close>

lemma first_row_without_header_cells:
  "header_rows table_without_th [[]] = [[0, 0]]
   \<and> getHeaders default_opts table_without_th [[]] = []
   \<and> parseTable default_opts table_without_th [[]]
       = [[(''unlabelled_0'', Str ''1'')], [(''unlabelled_0'', Str ''2'')]]"
proof -
  have rows: "getRows table_without_th [[]] = [[''1''], [''2'']]"
    by (simp add: dom_simps table_without_th_def js_trim_def js_is_space_def)
  have hr: "header_rows table_without_th [[]] = [[0, 0]]"
    by (simp add: dom_simps table_without_th_def)
  have hs: "getHeaders default_opts table_without_th [[]] = []"
    by (simp add: dom_simps table_without_th_def getHeaders_def combine_def header_groups_def)
  show ?thesis
    by (simp add: hr hs rows parseTable_def mapRowToHeaders_def unlabelled_key_0_1)
qed

section \<open>Normalising a key twice (claim C5)\<close>

text \<open>
  Claim C5: for every string and every combination of the four options, with
  \<^verbatim>\<open>replace_whitespaces_keys\<close> set to any replacement string, the key normalisation is
  idempotent. It is not for every replacement string: with the replacement \<open>X\<close> and
  \<^verbatim>\<open>lowercase_keys\<close> on, \<open>a b\<close> becomes \<open>aXb\<close> and then \<open>axb\<close>. A replacement that holds
  white space, or a template such as \<^verbatim>\<open>$`\<close>, is not stable either
  (\<open>replacements_that_are_not_stable\<close>).
\<close>

theorem C5_uppercase_replacement:
  "normalize_key (default_opts\<lparr>replace_whitespaces_keys := OStr ''X''\<rparr>)
     (normalize_key (default_opts\<lparr>replace_whitespaces_keys := OStr ''X''\<rparr>) ''a b'')
   \<noteq> normalize_key (default_opts\<lparr>replace_whitespaces_keys := OStr ''X''\<rparr>) ''a b''"
  by code_simp

lemma replacements_that_are_not_stable:
  "normalize_key (default_opts\<lparr>replace_whitespaces_keys := OStr ''X''\<rparr>) ''a b'' = ''aXb''"
  "normalize_key (default_opts\<lparr>replace_whitespaces_keys := OStr ''X''\<rparr>) ''aXb'' = ''axb''"
  "normalize_key (default_opts\<lparr>replace_whitespaces_keys := OStr '' x''\<rparr>) ''a b'' = ''a xb''"
  "normalize_key (default_opts\<lparr>replace_whitespaces_keys := OStr '' x''\<rparr>) ''a xb'' = ''a xxb''"
  "normalize_key (default_opts\<lparr>replace_whitespaces_keys := OStr [CHR ''$'', CHR 0x60]\<rparr>) ''a b c''
     = ''aaba bc''"
  "normalize_key (default_opts\<lparr>replace_whitespaces_keys := OStr [CHR ''$'', CHR 0x60]\<rparr>) ''aaba bc''
     = ''aabaaababc''"
  by code_simp+

text \<open>
  Claim C5 as amended: the key normalisation is idempotent for every string and every
  combination of the three boolean options when \<^verbatim>\<open>replace_whitespaces_keys\<close> is \<^verbatim>\<open>false\<close>,
  \<^verbatim>\<open>true\<close>, or a replacement string that holds no white-space character and no dollar
  sign and that, when \<^verbatim>\<open>lowercase_keys\<close> is on, is left as it is by \<^verbatim>\<open>toLowerCase\<close>.
\<close>

theorem C5_normalize_idempotent:
  assumes "\<forall>r. replace_whitespaces_keys os = OStr r \<longrightarrow>
             (\<forall>c\<in>set r. \<not> js_is_space c \<and> c \<noteq> CHR ''$'')
             \<and> (lowercase_keys os \<longrightarrow> js_toLowerCase r = r)"
  shows "normalize_key os (normalize_key os s) = normalize_key os s"
proof (cases "ws_replacement (replace_whitespaces_keys os)")
  case None
  then show ?thesis
    by (simp add: normalize_key_first_steps first_steps_idem)
next
  case (Some r)
  have r: "CHR ''$'' \<notin> set r \<and> (\<forall>c\<in>set r. \<not> js_is_space c)
      \<and> (lowercase_keys os \<longrightarrow> js_toLowerCase r = r)"
  proof (cases "replace_whitespaces_keys os")
    case (OBool b)
    with Some have "r = ''_''"
      by (simp split: if_splits)
    then show ?thesis
      by (simp add: js_is_space_def js_toLowerCase_def lower_char_def)
  next
    case (OStr r')
    with Some have "r' = r"
      by (simp split: if_splits)
    with assms OStr show ?thesis
      by auto
  qed
  let ?n = "replace_ws r [] (first_steps os s)"
  from r have ns: "\<forall>c\<in>set ?n. \<not> js_is_space c"
    by (intro replace_ws_no_space) simp_all
  have "first_steps os ?n = ?n"
  proof (cases "lowercase_keys os")
    case True
    with r have "js_toLowerCase ?n = replace_ws r [] (js_toLowerCase (first_steps os s))"
      by (intro replace_ws_lower) simp_all
    with True show ?thesis
      by (simp add: first_steps_no_space [OF ns] first_steps_lower)
  next
    case False
    then show ?thesis
      by (simp add: first_steps_no_space [OF ns])
  qed
  with ns Some show ?thesis
    by (simp add: normalize_key_first_steps no_space_replace_ws)
qed

theorem C5_normalize_idempotent_witness:
  "normalize_key (default_opts\<lparr>replace_whitespaces_keys := OStr ''-''\<rparr>)
     (normalize_key (default_opts\<lparr>replace_whitespaces_keys := OStr ''-''\<rparr>) ''  First   Name '')
   = ''first-name''"
proof -
  let ?os = "default_opts\<lparr>replace_whitespaces_keys := OStr ''-''\<rparr>"
  have "\<forall>r. replace_whitespaces_keys ?os = OStr r \<longrightarrow>
             (\<forall>c\<in>set r. \<not> js_is_space c \<and> c \<noteq> CHR ''$'')
             \<and> (lowercase_keys ?os \<longrightarrow> js_toLowerCase r = r)"
    by (simp add: js_is_space_def js_toLowerCase_def lower_char_def)
  then have "normalize_key ?os (normalize_key ?os ''  First   Name '')
      = normalize_key ?os ''  First   Name ''"
    by (rule C5_normalize_idempotent)
  also have "normalize_key ?os ''  First   Name '' = ''first-name''"
    by code_simp
  finally show ?thesis .
qed

section \<open>What the Row Mapper changes in the header tree (claim C6)\<close>

text \<open>
  Claim C6: a HeaderCell is changed only while the header tree is built; mapping a data
  row leaves the name, the remaining span and the children of every HeaderCell
  unchanged, so mapping the same row twice against the same header tree gives identical
  records. The first part fails: line 113 writes the disambiguated name back into
  \<^verbatim>\<open>header.name\<close>. Two siblings \<open>x\<close> with children are \<open>x\<close> and \<open>x_0\<close> after one row.
\<close>

theorem C6_header_renamed:
  "snd (mapRowToHeaders
         [Header ''x'' 0 [Header ''a'' 0 []], Header ''x'' 0 [Header ''b'' 0 []]] [''1'', ''2''])
   \<noteq> [Header ''x'' 0 [Header ''a'' 0 []], Header ''x'' 0 [Header ''b'' 0 []]]"
  by code_simp

text \<open>
  Claim C6 as amended: mapping a data row changes nothing in the header tree but the
  names of the headers that have children: the names of the leaf headers, every
  \<^verbatim>\<open>remainingSubheaders\<close> and the shape of the tree stay as they are; and mapping the same
  row again, against the headers as the first mapping left them, gives the identical
  record and leaves the headers as they are.
\<close>

theorem C6_only_names_change:
  "map forget_names (snd (mapRowToHeaders hs row)) = map forget_names hs
   \<and> mapRowToHeaders (snd (mapRowToHeaders hs row)) row = mapRowToHeaders hs row"
proof
  show "map forget_names (snd (mapRowToHeaders hs row)) = map forget_names hs"
    by (simp only: mapRowToHeaders_headers mapHeaders_shape)
next
  have "mapHeaders (snd (snd (mapHeaders hs [] row))) [] row = mapHeaders hs [] row"
    by (rule mapHeaders_again)
  then show "mapRowToHeaders (snd (mapRowToHeaders hs row)) row = mapRowToHeaders hs row"
    by (simp add: mapRowToHeaders_def split_beta)
qed

theorem C6_only_names_change_witness:
  "mapRowToHeaders
     [Header ''x'' 0 [Header ''a'' 0 []], Header ''x_0'' 0 [Header ''b'' 0 []]] [''1'', ''2'']
   = mapRowToHeaders
       [Header ''x'' 0 [Header ''a'' 0 []], Header ''x'' 0 [Header ''b'' 0 []]] [''1'', ''2'']"
proof -
  have "snd (mapRowToHeaders
         [Header ''x'' 0 [Header ''a'' 0 []], Header ''x'' 0 [Header ''b'' 0 []]] [''1'', ''2''])
      = [Header ''x'' 0 [Header ''a'' 0 []], Header ''x_0'' 0 [Header ''b'' 0 []]]"
    by code_simp
  with C6_only_names_change
    [of "[Header ''x'' 0 [Header ''a'' 0 []], Header ''x'' 0 [Header ''b'' 0 []]]" "[''1'', ''2'']"]
  show ?thesis
    by simp
qed

text \<open>
  The renamed headers are seen by the rows that follow. With a leaf \<open>x\<close> before a header
  \<open>x\<close> with children, the row \<^verbatim>\<open>["", "2"]\<close> maps to \<^verbatim>\<open>{x: {a: "2"}}\<close> as the first row
  (the empty string is falsy, so there is no collision), and to
  \<^verbatim>\<open>{x: "", x_0: {a: "2"}}\<close> after a row whose first value is not empty.
\<close>

lemma later_rows_depend_on_earlier_rows:
  "fst (mapRowsToHeaders [Header ''x'' 0 [], Header ''x'' 0 [Header ''a'' 0 []]]
         [['''', ''2''], [''1'', ''2''], ['''', ''2'']])
   = [[(''x'', Obj [(''a'', Str ''2'')])],
      [(''x'', Str ''1''), (''x_0'', Obj [(''a'', Str ''2'')])],
      [(''x'', Str []), (''x_0'', Obj [(''a'', Str ''2'')])]]"
  by code_simp

section \<open>A row that is too short (claim C7)\<close>



section \<open>Values without a header (claim C8)\<close>

text \<open>
  Claim C8: the traversal of the header tree consumes one value for each leaf header;
  every value that is left in the flat row is then stored in the top-level record under
  \<^verbatim>\<open>unlabelled_0\<close>, \<^verbatim>\<open>unlabelled_1\<close>, ... in order; with an empty header tree every value
  of the row is stored under such a key. The values left are
  \<open>drop (leaf_count hs) row\<close>, and the \<open>i\<close>-th of them is found under \<open>unlabelled_key i\<close>
  in the record. If no header has put such a key into the top-level record, the
  bindings are appended to it in the order of the row; and for the empty tree the
  record consists of exactly these bindings.
\<close>

theorem C8_leftover_values_unlabelled:
  "fst (snd (mapHeaders hs [] row)) = drop (leaf_count hs) row
   \<and> (\<forall>i < length (drop (leaf_count hs) row).
        map_of (fst (mapRowToHeaders hs row)) (unlabelled_key i)
          = Some (Str (drop (leaf_count hs) row ! i)))
   \<and> ((\<forall>j. unlabelled_key j \<notin> fst ` set (fst (mapHeaders hs [] row))) \<longrightarrow>
        fst (mapRowToHeaders hs row)
          = fst (mapHeaders hs [] row)
            @ map (\<lambda>(i, v). (unlabelled_key i, Str v)) (enumerate 0 (drop (leaf_count hs) row)))
   \<and> fst (mapRowToHeaders [] row) = map (\<lambda>(i, v). (unlabelled_key i, Str v)) (enumerate 0 row)"
proof (intro conjI allI impI)
  show "fst (snd (mapHeaders hs [] row)) = drop (leaf_count hs) row"
    by (rule mapHeaders_rest)
next
  assume "\<forall>j. unlabelled_key j \<notin> fst ` set (fst (mapHeaders hs [] row))"
  then have "add_unlabelled 0 (drop (leaf_count hs) row) (fst (mapHeaders hs [] row))
      = fst (mapHeaders hs [] row)
        @ map (\<lambda>(i, v). (unlabelled_key i, Str v)) (enumerate 0 (drop (leaf_count hs) row))"
    by (intro add_unlabelled_fresh) simp
  then show "fst (mapRowToHeaders hs row)
          = fst (mapHeaders hs [] row)
            @ map (\<lambda>(i, v). (unlabelled_key i, Str v)) (enumerate 0 (drop (leaf_count hs) row))"
    by (simp only: mapRowToHeaders_record)
next
  fix i
  assume "i < length (drop (leaf_count hs) row)"
  then show "map_of (fst (mapRowToHeaders hs row)) (unlabelled_key i)
      = Some (Str (drop (leaf_count hs) row ! i))"
    using add_unlabelled_lookup [of i "drop (leaf_count hs) row" 0 "fst (mapHeaders hs [] row)"]
    by (simp add: mapRowToHeaders_record)
next
  have "add_unlabelled 0 row [] = [] @ map (\<lambda>(i, v). (unlabelled_key i, Str v)) (enumerate 0 row)"
    by (rule add_unlabelled_fresh) simp
  then show "fst (mapRowToHeaders [] row) = map (\<lambda>(i, v). (unlabelled_key i, Str v)) (enumerate 0 row)"
    by (simp add: mapRowToHeaders_def)
qed

theorem C8_leftover_values_unlabelled_witness:
  "map_of (fst (mapRowToHeaders [Header ''a'' 0 []] [''1'', ''2''])) ''unlabelled_0'' = Some (Str ''2'')"
proof -
  have "drop (leaf_count [Header ''a'' 0 []]) [''1'', ''2''] = [''2'']"
    by (simp add: leaf_count_def)
  with C8_leftover_values_unlabelled [of "[Header ''a'' 0 []]" "[''1'', ''2'']"]
  have "map_of (fst (mapRowToHeaders [Header ''a'' 0 []] [''1'', ''2''])) (unlabelled_key 0)
      = Some (Str ''2'')"
    by simp
  then show ?thesis
    by (simp only: unlabelled_key_0_1)
qed

section \<open>Leaf headers and column spans (claim C9)\<close>



section \<open>Header cells in body rows (claim C10)\<close>



end
